theory Spec2Isabelle
  imports Main "HOL-Library.Word" "HOL-Library.Multiset"
begin

unbundle bit_operations_syntax

section \<open>Packets\<close>

text \<open>
  The enumeration \<^verbatim>\<open>enum class Priority : uint8_t\<close> with its four enumerators in the
  order of their declaration, and the value \<^verbatim>\<open>static_cast<uint8_t>\<close> gives each of them.
\<close>

datatype Priority = REAL_TIME | STREAMING | BULK | CONTROL

fun priority_value :: "Priority \<Rightarrow> 8 word" where
  "priority_value REAL_TIME = 0"
| "priority_value STREAMING = 1"
| "priority_value BULK = 2"
| "priority_value CONTROL = 3"

text \<open>
  \<^verbatim>\<open>struct Packet\<close>. The arrival time is a reading of the steady clock, kept as its
  count of ticks; the payload is a vector of bytes.
\<close>

record Packet =
  sequence_number :: "64 word"
  priority :: Priority
  source_satellite_id :: "32 word"
  destination_id :: "32 word"
  arrival_time :: int
  payload :: "8 word list"

text \<open>\<^verbatim>\<open>Packet::operator>\<close>, branch by branch.\<close>

definition operator_gt :: "Packet \<Rightarrow> Packet \<Rightarrow> bool" where
  "operator_gt this other =
     (if priority this \<noteq> priority other then
        (if priority this = CONTROL then False
         else if priority other = CONTROL then True
         else priority_value (priority this) > priority_value (priority other))
      else sequence_number this > sequence_number other)"

text \<open>
  A packet as \<^verbatim>\<open>generatePacket\<close> builds it, for a given sequence number, class and
  destination: the satellite, the clock reading and the payload (64 bytes of
  \<^verbatim>\<open>0xAB\<close>) are fixed.
\<close>

definition simPacket :: "64 word \<Rightarrow> Priority \<Rightarrow> 32 word \<Rightarrow> Packet" where
  "simPacket seq pri dst =
     \<lparr>sequence_number = seq, priority = pri, source_satellite_id = 1,
      destination_id = dst, arrival_time = 0, payload = replicate 64 171\<rparr>"

section \<open>The single-producer single-consumer ring buffer\<close>

text \<open>
  \<^verbatim>\<open>SPSCRingBuffer<T, Capacity>\<close>: the two indices are \<^verbatim>\<open>size_t\<close> values and the slots
  an array of \<^verbatim>\<open>Capacity\<close> elements (the member \<^verbatim>\<open>buffer_\<close>). The template parameter
  \<^verbatim>\<open>Capacity\<close> is the first argument of every operation. The constructor leaves the
  array default-initialised; the default element is its second argument.
\<close>

record 'a SPSCRingBuffer =
  head :: "64 word"
  tail :: "64 word"
  slots :: "'a list"

definition SPSCRingBuffer :: "64 word \<Rightarrow> 'a \<Rightarrow> 'a SPSCRingBuffer" where
  "SPSCRingBuffer Capacity d = \<lparr>head = 0, tail = 0, slots = replicate (unat Capacity) d\<rparr>"

text \<open>
  \<^verbatim>\<open>tryPush\<close> returns whether the item was taken, with the buffer after the call. On
  \<^verbatim>\<open>false\<close> the item has not been moved from.
\<close>

definition tryPush :: "64 word \<Rightarrow> 'a \<Rightarrow> 'a SPSCRingBuffer \<Rightarrow> bool \<times> 'a SPSCRingBuffer" where
  "tryPush Capacity item s =
     (let h = head s;
          next = (h + 1) AND (Capacity - 1)
      in if next = tail s then (False, s)
         else (True, s\<lparr>slots := (slots s)[unat h := item], head := next\<rparr>))"

definition tryPop :: "64 word \<Rightarrow> 'a SPSCRingBuffer \<Rightarrow> 'a option \<times> 'a SPSCRingBuffer" where
  "tryPop Capacity s =
     (let t = tail s
      in if t = head s then (None, s)
         else (Some (slots s ! unat t), s\<lparr>tail := (t + 1) AND (Capacity - 1)\<rparr>))"

definition empty_spsc :: "'a SPSCRingBuffer \<Rightarrow> bool" where
  "empty_spsc s = (head s = tail s)"

definition size_spsc :: "64 word \<Rightarrow> 'a SPSCRingBuffer \<Rightarrow> 64 word" where
  "size_spsc Capacity s = (head s - tail s) AND (Capacity - 1)"

text \<open>
  For a capacity other than 0 both indices stay below \<^verbatim>\<open>Capacity\<close> and the array
  keeps its length, so that every \<^verbatim>\<open>buffer_[head]\<close> and \<^verbatim>\<open>buffer_[tail]\<close> is
  within the array.
\<close>

definition spsc_inv :: "64 word \<Rightarrow> 'a SPSCRingBuffer \<Rightarrow> bool" where
  "spsc_inv Capacity s =
     (head s < Capacity \<and> tail s < Capacity \<and> length (slots s) = unat Capacity)"

text \<open>A producer that offers the items of a list one after the other, with each result.\<close>

fun push_all :: "64 word \<Rightarrow> 'a list \<Rightarrow> 'a SPSCRingBuffer \<Rightarrow> bool list \<times> 'a SPSCRingBuffer" where
  "push_all Capacity [] s = ([], s)"
| "push_all Capacity (x # xs) s =
     (let (ok, s') = tryPush Capacity x s;
          (oks, s'') = push_all Capacity xs s'
      in (ok # oks, s''))"

section \<open>The reordering buffer\<close>

text \<open>
  \<^verbatim>\<open>class ReorderingBuffer\<close>. The hash map \<^verbatim>\<open>buffer_\<close> is a map from sequence numbers
  to packets, the counters are the 64-bit atomics of the class. Every member function
  but \<^verbatim>\<open>stop\<close> holds the mutex for its whole body, and \<^verbatim>\<open>stop\<close> is one atomic
  store, so each call is one step on this state: \<^verbatim>\<open>getNext\<close> is the step from the
  moment its wait returns, and calls of other threads during the wait are steps before it.
  The clock readings (\<^verbatim>\<open>timeout_\<close>, \<^verbatim>\<open>last_insert_time_\<close>, the deadline) are read by
  nothing but the wait, whose outcome is \<open>wait_until\<close> below.
\<close>

record ReorderingBuffer =
  buffer :: "64 word \<rightharpoonup> Packet"
  next_expected_seq :: "64 word"
  running :: bool
  total_received :: "64 word"
  total_released :: "64 word"
  total_gaps :: "64 word"

definition ReorderingBuffer :: "64 word \<Rightarrow> ReorderingBuffer" where
  "ReorderingBuffer start_seq =
     \<lparr>buffer = Map.empty, next_expected_seq = start_seq, running = True,
      total_received = 0, total_released = 0, total_gaps = 0\<rparr>"

definition insert_pkt :: "Packet \<Rightarrow> ReorderingBuffer \<Rightarrow> ReorderingBuffer" where
  "insert_pkt pkt s =
     s\<lparr>total_received := total_received s + 1,
       buffer := (buffer s)(sequence_number pkt \<mapsto> pkt)\<rparr>"

text \<open>\<^verbatim>\<open>buffer_.size()\<close>, as \<^verbatim>\<open>printStats\<close> reports it.\<close>

definition buffered :: "ReorderingBuffer \<Rightarrow> nat" where
  "buffered s = card (dom (buffer s))"

text \<open>
  The value of \<^verbatim>\<open>cv_.wait_until(lock, deadline, pred)\<close>: the wait returns as soon as its
  predicate holds, and returns \<^verbatim>\<open>false\<close> only when the deadline has passed with the
  predicate still false. So the wait ends in a state \<open>s\<close> either with the predicate
  true, or by the deadline.
\<close>

definition wait_until :: "ReorderingBuffer \<Rightarrow> bool" where
  "wait_until s = (\<not> running s \<or> next_expected_seq s \<in> dom (buffer s))"

definition deadline_elapsed :: "ReorderingBuffer \<Rightarrow> bool" where
  "deadline_elapsed s = (\<not> wait_until s)"

text \<open>
  \<^verbatim>\<open>getNext\<close> from the state in which its wait ends. The source discards the value
  of the wait, so the rest of the call depends on the state alone. The \<^verbatim>\<open>while\<close> loop
  of the source returns in its first iteration, so it is a conditional.
\<close>

definition getNext :: "ReorderingBuffer \<Rightarrow> Packet option \<times> ReorderingBuffer" where
  "getNext s =
     (if \<not> running s \<and> buffer s = Map.empty then (None, s)
      else
        (case buffer s (next_expected_seq s) of
           Some pkt \<Rightarrow>
             (Some pkt,
              s\<lparr>buffer := (buffer s)(next_expected_seq s := None),
                next_expected_seq := next_expected_seq s + 1,
                total_released := total_released s + 1\<rparr>)
         | None \<Rightarrow>
             (let s1 = s\<lparr>total_gaps := total_gaps s + 1,
                         next_expected_seq := next_expected_seq s + 1\<rparr>
              in case buffer s1 (next_expected_seq s1) of
                   Some pkt \<Rightarrow>
                     (Some pkt,
                      s1\<lparr>buffer := (buffer s1)(next_expected_seq s1 := None),
                         next_expected_seq := next_expected_seq s1 + 1,
                         total_released := total_released s1 + 1\<rparr>)
                 | None \<Rightarrow> (None, s1))))"

definition stop :: "ReorderingBuffer \<Rightarrow> ReorderingBuffer" where
  "stop s = s\<lparr>running := False\<rparr>"

text \<open>The calls a buffer receives, and a run of them with the packets it releases.\<close>

datatype rb_op = Insert Packet | GetNext | Stop

fun apply_op :: "rb_op \<Rightarrow> ReorderingBuffer \<Rightarrow> Packet option \<times> ReorderingBuffer" where
  "apply_op (Insert pkt) s = (None, insert_pkt pkt s)"
| "apply_op GetNext s = getNext s"
| "apply_op Stop s = (None, stop s)"

fun run :: "rb_op list \<Rightarrow> ReorderingBuffer \<Rightarrow> Packet list \<times> ReorderingBuffer" where
  "run [] s = ([], s)"
| "run (opn # ops) s =
     (let (r, s') = apply_op opn s;
          (rs, s'') = run ops s'
      in (case r of None \<Rightarrow> rs | Some p \<Rightarrow> p # rs, s''))"

fun getNext_n :: "nat \<Rightarrow> ReorderingBuffer \<Rightarrow> Packet option list \<times> ReorderingBuffer" where
  "getNext_n 0 s = ([], s)"
| "getNext_n (Suc n) s =
     (let (r, s') = getNext s;
          (rs, s'') = getNext_n n s'
      in (r # rs, s''))"

text \<open>The number of \<^verbatim>\<open>getNext\<close> calls in a run.\<close>

definition getNext_calls :: "rb_op list \<Rightarrow> nat" where
  "getNext_calls ops = length (filter (\<lambda>opn. opn = GetNext) ops)"

text \<open>
  The arrival order of the reordering scenario: sequence numbers 2, 0, 1.
\<close>

definition scenario_A :: "Packet list" where
  "scenario_A = [simPacket 2 BULK 3, simPacket 0 REAL_TIME 3, simPacket 1 CONTROL 3]"

text \<open>Every pending packet is stored under its own sequence number.\<close>

definition keyed :: "ReorderingBuffer \<Rightarrow> bool" where
  "keyed s = (\<forall>k p. buffer s k = Some p \<longrightarrow> sequence_number p = k)"

section \<open>The priority router\<close>

text \<open>
  Each output queue is a \<^verbatim>\<open>std::priority_queue<Packet, std::vector<Packet>,
  std::greater<Packet>>\<close>, modelled by the contract of the standard container: it
  holds a bag of packets, \<^verbatim>\<open>push\<close> adds one, \<^verbatim>\<open>top\<close> is an element that the comparison
  \<^verbatim>\<open>std::greater\<close>, hence \<^verbatim>\<open>Packet::operator>\<close>, puts before no other, and \<^verbatim>\<open>pop\<close>
  removes it. Among equivalent packets the model takes the one pushed first.
\<close>

definition pq_push :: "Packet \<Rightarrow> Packet list \<Rightarrow> Packet list" where
  "pq_push pkt q = q @ [pkt]"

fun pq_top :: "Packet list \<Rightarrow> Packet option" where
  "pq_top [] = None"
| "pq_top (x # xs) = Some (foldl (\<lambda>m y. if operator_gt m y then y else m) x xs)"

definition pq_pop :: "Packet list \<Rightarrow> Packet list" where
  "pq_pop q = (case pq_top q of None \<Rightarrow> q | Some t \<Rightarrow> remove1 t q)"

text \<open>
  \<^verbatim>\<open>class PriorityRouter\<close>: a vector of queues, a vector of \<^verbatim>\<open>std::atomic<int>\<close> depths,
  the 64-bit counter, and an array of exactly 16 mutexes. Indexing a vector or the
  array outside its bounds, and the remainder by a size of zero, are undefined in the
  source; here each is an error. A negative size makes the vector constructor throw.
\<close>

datatype error = LengthError | DivisionByZero | MutexIndexOutOfBounds | QueueIndexOutOfBounds

record PriorityRouter =
  queues :: "Packet list list"
  queue_sizes :: "32 word list"
  total_routed :: "64 word"

definition num_mutexes :: nat where
  "num_mutexes = 16"

definition PriorityRouter :: "int \<Rightarrow> error + PriorityRouter" where
  "PriorityRouter num_output_queues =
     (if num_output_queues < 0 then Inl LengthError
      else Inr \<lparr>queues = replicate (nat num_output_queues) [],
                queue_sizes = replicate (nat num_output_queues) 0,
                total_routed = 0\<rparr>)"

definition route :: "Packet \<Rightarrow> PriorityRouter \<Rightarrow> error + PriorityRouter" where
  "route pkt r =
     (if length (queues r) = 0 then Inl DivisionByZero
      else
        (let queue_idx = unat (destination_id pkt) mod length (queues r)
         in if queue_idx \<ge> num_mutexes then Inl MutexIndexOutOfBounds
            else if queue_idx \<ge> length (queue_sizes r) then Inl QueueIndexOutOfBounds
            else Inr (r\<lparr>queues := (queues r)[queue_idx := pq_push pkt (queues r ! queue_idx)],
                        queue_sizes := (queue_sizes r)[queue_idx := queue_sizes r ! queue_idx + 1],
                        total_routed := total_routed r + 1\<rparr>)))"

definition dequeue :: "int \<Rightarrow> PriorityRouter \<Rightarrow> error + (Packet option \<times> PriorityRouter)" where
  "dequeue queue_idx r =
     (if queue_idx < 0 \<or> nat queue_idx \<ge> num_mutexes then Inl MutexIndexOutOfBounds
      else if nat queue_idx \<ge> length (queues r) then Inl QueueIndexOutOfBounds
      else
        (case pq_top (queues r ! nat queue_idx) of
           None \<Rightarrow> Inr (None, r)
         | Some pkt \<Rightarrow>
             if nat queue_idx \<ge> length (queue_sizes r) then Inl QueueIndexOutOfBounds
             else Inr (Some pkt,
                       r\<lparr>queues := (queues r)[nat queue_idx := pq_pop (queues r ! nat queue_idx)],
                         queue_sizes := (queue_sizes r)[nat queue_idx :=
                                          queue_sizes r ! nat queue_idx - 1]\<rparr>)))"

text \<open>Routing a list of packets in order, and draining one queue by repeated calls.\<close>

fun route_all :: "Packet list \<Rightarrow> PriorityRouter \<Rightarrow> error + PriorityRouter" where
  "route_all [] r = Inr r"
| "route_all (pkt # pkts) r =
     (case route pkt r of Inl e \<Rightarrow> Inl e | Inr r' \<Rightarrow> route_all pkts r')"

fun dequeue_n :: "nat \<Rightarrow> int \<Rightarrow> PriorityRouter \<Rightarrow> error + (Packet option list \<times> PriorityRouter)" where
  "dequeue_n 0 queue_idx r = Inr ([], r)"
| "dequeue_n (Suc n) queue_idx r =
     (case dequeue queue_idx r of
        Inl e \<Rightarrow> Inl e
      | Inr (x, r') \<Rightarrow>
          (case dequeue_n n queue_idx r' of
             Inl e \<Rightarrow> Inl e
           | Inr (xs, r'') \<Rightarrow> Inr (x # xs, r'')))"

text \<open>
  The order of the traffic classes that the router is to serve, CONTROL first and BULK
  last, and the order on packets it induces: a higher class first, and within one class
  the lower sequence number first.
\<close>

fun class_rank :: "Priority \<Rightarrow> nat" where
  "class_rank CONTROL = 0"
| "class_rank REAL_TIME = 1"
| "class_rank STREAMING = 2"
| "class_rank BULK = 3"

definition served_before :: "Packet \<Rightarrow> Packet \<Rightarrow> bool" where
  "served_before a b =
     (class_rank (priority a) < class_rank (priority b)
      \<or> (priority a = priority b \<and> sequence_number a \<le> sequence_number b))"

text \<open>
  The five packets of the routing scenario, all for destination 3: classes BULK,
  CONTROL, REAL_TIME, CONTROL, STREAMING with sequence numbers 10 to 14.
\<close>

definition scenario_C :: "Packet list" where
  "scenario_C = [simPacket 10 BULK 3, simPacket 11 CONTROL 3, simPacket 12 REAL_TIME 3,
     simPacket 13 CONTROL 3, simPacket 14 STREAMING 3]"

section \<open>The exchange buffer: full and empty\<close>

lemma tryPush_fails_iff:
  "\<not> fst (tryPush Capacity item s) \<longleftrightarrow> (head s + 1) AND (Capacity - 1) = tail s"
  by (simp add: tryPush_def Let_def)

lemma tryPush_failure_keeps: "\<not> fst (tryPush Capacity item s) \<Longrightarrow> snd (tryPush Capacity item s) = s"
  by (simp add: tryPush_def Let_def split: if_splits)

lemma tryPop_None_iff: "fst (tryPop Capacity s) = None \<longleftrightarrow> tail s = head s"
  by (simp add: tryPop_def Let_def)

lemma tryPop_None_keeps: "fst (tryPop Capacity s) = None \<Longrightarrow> snd (tryPop Capacity s) = s"
  by (simp add: tryPop_def Let_def split: if_splits)

lemma mask_below: "Capacity \<noteq> 0 \<Longrightarrow> (x :: 64 word) AND (Capacity - 1) < Capacity"
proof -
  assume "Capacity \<noteq> 0"
  then have "Capacity - 1 < Capacity"
    by (simp add: word_less_nat_alt unat_minus_one unat_gt_0 [symmetric] unat_eq_0) 
  moreover have "x AND (Capacity - 1) \<le> Capacity - 1"
    by (rule word_and_le1)
  ultimately show ?thesis by simp
qed

lemma spsc_inv_initial: "Capacity \<noteq> 0 \<Longrightarrow> spsc_inv Capacity (SPSCRingBuffer Capacity d)"
  by (simp add: spsc_inv_def SPSCRingBuffer_def word_neq_0_conv)

lemma spsc_inv_tryPush:
  "Capacity \<noteq> 0 \<Longrightarrow> spsc_inv Capacity s \<Longrightarrow> spsc_inv Capacity (snd (tryPush Capacity item s))"
  by (simp add: spsc_inv_def tryPush_def Let_def mask_below)

lemma spsc_inv_tryPop:
  "Capacity \<noteq> 0 \<Longrightarrow> spsc_inv Capacity s \<Longrightarrow> spsc_inv Capacity (snd (tryPop Capacity s))"
  by (simp add: spsc_inv_def tryPop_def Let_def mask_below)

lemma spsc_capacity_8:
  "(let (oks, s7) = push_all 8 [x1, x2, x3, x4, x5, x6, x7, x8] (SPSCRingBuffer 8 d);
        (r, s8) = tryPop 8 s7;
        (oks', s9) = push_all 8 [y1, y2] s8
    in oks = [True, True, True, True, True, True, True, False]
       \<and> r = Some x1 \<and> oks' = [True, False])"
  by (simp add: tryPush_def tryPop_def SPSCRingBuffer_def)

text \<open>
  Claim C4. \<open>tryPush\<close> is a total function, and it fails, leaving the buffer as it was
  (the item stays with the caller), exactly when the producer index after the push
  would equal the consumer index; \<open>tryPop\<close> is total and returns nothing, leaving the
  buffer as it was, exactly when the two indices are equal. With capacity 8, starting
  empty, seven pushes in a row succeed and the eighth fails; after one pop, which
  returns the first item pushed, one more push succeeds and the one after it fails.
\<close>

theorem spsc_full_and_empty:
  "(\<not> fst (tryPush Capacity item s) \<longleftrightarrow> (head s + 1) AND (Capacity - 1) = tail s)
   \<and> (\<not> fst (tryPush Capacity item s) \<longrightarrow> snd (tryPush Capacity item s) = s)
   \<and> (fst (tryPop Capacity s) = None \<longleftrightarrow> tail s = head s)
   \<and> (fst (tryPop Capacity s) = None \<longrightarrow> snd (tryPop Capacity s) = s)
   \<and> (let (oks, s7) = push_all 8 [x1, x2, x3, x4, x5, x6, x7, x8] (SPSCRingBuffer 8 d);
          (r, s8) = tryPop 8 s7;
          (oks', s9) = push_all 8 [y1, y2] s8
      in oks = [True, True, True, True, True, True, True, False]
         \<and> r = Some x1 \<and> oks' = [True, False])"
  using tryPush_fails_iff [of Capacity item s] tryPush_failure_keeps [of Capacity item s]
    tryPop_None_iff [of Capacity s] tryPop_None_keeps [of Capacity s]
    spsc_capacity_8 [of x1 x2 x3 x4 x5 x6 x7 x8 d y1 y2]
  by blast

theorem spsc_full_and_empty_witness:
  "\<not> fst (tryPush 8 (8::nat) (snd (push_all 8 [1, 2, 3, 4, 5, 6, 7] (SPSCRingBuffer 8 0))))
   \<and> snd (tryPush 8 (8::nat) (snd (push_all 8 [1, 2, 3, 4, 5, 6, 7] (SPSCRingBuffer 8 0))))
       = snd (push_all 8 [1, 2, 3, 4, 5, 6, 7] (SPSCRingBuffer 8 0))
   \<and> fst (tryPop 8 (SPSCRingBuffer 8 (0::nat))) = None
   \<and> snd (tryPop 8 (SPSCRingBuffer 8 (0::nat))) = SPSCRingBuffer 8 0"
proof -
  let ?s = "snd (push_all 8 [1, 2, 3, 4, 5, 6, 7] (SPSCRingBuffer 8 (0::nat)))"
  have full: "(head ?s + 1) AND (8 - 1) = tail ?s"
    by (simp add: tryPush_def SPSCRingBuffer_def)
  have empty: "tail (SPSCRingBuffer 8 (0::nat)) = head (SPSCRingBuffer 8 (0::nat))"
    by (simp add: SPSCRingBuffer_def)
  note push = spsc_full_and_empty [of 8 "8::nat" ?s]
  note pop = spsc_full_and_empty [of 8 "0::nat" "SPSCRingBuffer 8 0"]
  have a: "\<not> fst (tryPush 8 (8::nat) ?s)"
    using push [THEN conjunct1] full by blast
  have b: "snd (tryPush 8 (8::nat) ?s) = ?s"
    using push [THEN conjunct2, THEN conjunct1] a by blast
  have c: "fst (tryPop 8 (SPSCRingBuffer 8 (0::nat))) = None"
    using pop [THEN conjunct2, THEN conjunct2, THEN conjunct1] empty by blast
  have d: "snd (tryPop 8 (SPSCRingBuffer 8 (0::nat))) = SPSCRingBuffer 8 0"
    using pop [THEN conjunct2, THEN conjunct2, THEN conjunct2, THEN conjunct1] c by blast
  from a b c d show ?thesis by blast
qed

section \<open>The reordering buffer: single calls\<close>

lemma getNext_terminal: "\<not> running s \<Longrightarrow> buffer s = Map.empty \<Longrightarrow> getNext s = (None, s)"
  by (simp add: getNext_def)

lemma getNext_release:
  "buffer s (next_expected_seq s) = Some p \<Longrightarrow>
   getNext s = (Some p, s\<lparr>buffer := (buffer s)(next_expected_seq s := None),
                          next_expected_seq := next_expected_seq s + 1,
                          total_released := total_released s + 1\<rparr>)"
  by (auto simp add: getNext_def)

lemma getNext_gap_only:
  "running s \<or> buffer s \<noteq> Map.empty \<Longrightarrow> buffer s (next_expected_seq s) = None \<Longrightarrow>
   buffer s (next_expected_seq s + 1) = None \<Longrightarrow>
   getNext s = (None, s\<lparr>total_gaps := total_gaps s + 1,
                        next_expected_seq := next_expected_seq s + 1\<rparr>)"
  by (auto simp add: getNext_def)

lemma getNext_gap_release:
  "buffer s (next_expected_seq s) = None \<Longrightarrow>
   buffer s (next_expected_seq s + 1) = Some p \<Longrightarrow>
   getNext s = (Some p, s\<lparr>total_gaps := total_gaps s + 1,
                          buffer := (buffer s)(next_expected_seq s + 1 := None),
                          next_expected_seq := next_expected_seq s + 2,
                          total_released := total_released s + 1\<rparr>)"
  by (auto simp add: getNext_def add.assoc)

lemma word64_le_plus: "unat (x::64 word) + n < 2 ^ 64 \<Longrightarrow> x \<le> x + of_nat n"
  by (simp add: word_le_nat_alt unat_word_ariths unat_of_nat take_bit_eq_mod)

text \<open>
  Claim C9. \<open>insert_pkt\<close> is a total function without an error result. It stores the
  packet under its sequence number, so that a packet already pending under that number
  is replaced and the number of pending packets stays the same (it grows by one
  otherwise), and it adds exactly one to the received counter (a 64-bit counter); it
  changes nothing else.
\<close>

theorem insert_stores_and_counts:
  "buffer (insert_pkt pkt s) = (buffer s)(sequence_number pkt \<mapsto> pkt)
   \<and> (sequence_number pkt \<in> dom (buffer s) \<longrightarrow> buffered (insert_pkt pkt s) = buffered s)
   \<and> (sequence_number pkt \<notin> dom (buffer s) \<longrightarrow> buffered (insert_pkt pkt s) = buffered s + 1)
   \<and> total_received (insert_pkt pkt s) = total_received s + 1
   \<and> next_expected_seq (insert_pkt pkt s) = next_expected_seq s
   \<and> running (insert_pkt pkt s) = running s
   \<and> total_released (insert_pkt pkt s) = total_released s
   \<and> total_gaps (insert_pkt pkt s) = total_gaps s"
  by (auto simp add: insert_pkt_def buffered_def insert_absorb)

theorem insert_stores_and_counts_witness:
  "sequence_number (simPacket 5 CONTROL 3)
     \<in> dom (buffer (insert_pkt (simPacket 5 BULK 3) (ReorderingBuffer 0)))
   \<and> buffer (insert_pkt (simPacket 5 CONTROL 3) (insert_pkt (simPacket 5 BULK 3) (ReorderingBuffer 0))) 5
       = Some (simPacket 5 CONTROL 3)
   \<and> buffered (insert_pkt (simPacket 5 CONTROL 3) (insert_pkt (simPacket 5 BULK 3) (ReorderingBuffer 0)))
       = buffered (insert_pkt (simPacket 5 BULK 3) (ReorderingBuffer 0))
   \<and> total_received (insert_pkt (simPacket 5 CONTROL 3) (insert_pkt (simPacket 5 BULK 3) (ReorderingBuffer 0)))
       = 2"
proof -
  let ?s = "insert_pkt (simPacket 5 BULK 3) (ReorderingBuffer 0)"
  let ?p = "simPacket 5 CONTROL 3"
  have pending: "sequence_number ?p \<in> dom (buffer ?s)"
    by (simp add: insert_pkt_def simPacket_def)
  have seq: "sequence_number ?p = 5"
    by (simp add: simPacket_def)
  have before: "total_received ?s = 1"
    by (simp add: insert_pkt_def ReorderingBuffer_def)
  note ins = insert_stores_and_counts [of ?p ?s]
  have stored: "buffer (insert_pkt ?p ?s) 5 = Some ?p"
    using ins [THEN conjunct1] seq by simp
  have size: "buffered (insert_pkt ?p ?s) = buffered ?s"
    using ins [THEN conjunct2, THEN conjunct1] pending by blast
  have count: "total_received (insert_pkt ?p ?s) = 2"
    using ins [THEN conjunct2, THEN conjunct2, THEN conjunct2, THEN conjunct1] before by simp
  from pending stored size count show ?thesis by blast
qed

text \<open>
  Claim C10. Once the buffer is stopped and nothing is pending, any number of calls to
  \<open>getNext\<close> in a row each return nothing and leave the whole state as it was: the
  next expected sequence number, the pending map and the three counters.
\<close>

theorem shutdown_terminal:
  "\<not> running s \<Longrightarrow> buffer s = Map.empty \<Longrightarrow> getNext_n n s = (replicate n None, s)"
  by (induction n) (simp_all add: getNext_terminal)

theorem shutdown_terminal_witness:
  "\<not> running (stop (ReorderingBuffer 7)) \<and> buffer (stop (ReorderingBuffer 7)) = Map.empty
   \<and> getNext_n 3 (stop (ReorderingBuffer 7)) = ([None, None, None], stop (ReorderingBuffer 7))"
proof -
  have stopped: "\<not> running (stop (ReorderingBuffer 7))"
    by (simp add: stop_def)
  have drained: "buffer (stop (ReorderingBuffer 7)) = Map.empty"
    by (simp add: stop_def ReorderingBuffer_def)
  from shutdown_terminal [OF stopped drained, of 3] stopped drained show ?thesis
    by (simp add: numeral_3_eq_3)
qed

text \<open>
  Claim C7, as amended. Every call to \<open>getNext\<close> does exactly one of four things. If
  the buffer is stopped and nothing is pending it returns nothing and changes nothing
  (neither a delivery nor a gap). Otherwise, if the awaited packet is pending it
  returns that packet, adds one to released and leaves gaps; if it is not pending the
  call adds one to gaps, and then either returns nothing with released unchanged, or,
  when the packet after the awaited one is pending, also returns that packet and adds
  one to released (a gap and a delivery in one call). A packet is returned exactly when
  released grows by one, and gaps grows by at most one.
\<close>

theorem getNext_four_cases:
  "(\<not> running s \<and> buffer s = Map.empty \<longrightarrow> getNext s = (None, s))
   \<and> (running s \<or> buffer s \<noteq> Map.empty \<longrightarrow>
        (case buffer s (next_expected_seq s) of
           Some p \<Rightarrow>
             fst (getNext s) = Some p
             \<and> total_released (snd (getNext s)) = total_released s + 1
             \<and> total_gaps (snd (getNext s)) = total_gaps s
         | None \<Rightarrow>
             total_gaps (snd (getNext s)) = total_gaps s + 1
             \<and> (case buffer s (next_expected_seq s + 1) of
                  Some p \<Rightarrow>
                    fst (getNext s) = Some p
                    \<and> total_released (snd (getNext s)) = total_released s + 1
                | None \<Rightarrow>
                    fst (getNext s) = None
                    \<and> total_released (snd (getNext s)) = total_released s)))
   \<and> (fst (getNext s) \<noteq> None \<longleftrightarrow> total_released (snd (getNext s)) = total_released s + 1)
   \<and> (fst (getNext s) = None \<longleftrightarrow> total_released (snd (getNext s)) = total_released s)
   \<and> (total_gaps (snd (getNext s)) = total_gaps s
        \<or> total_gaps (snd (getNext s)) = total_gaps s + 1)"
  by (auto simp add: getNext_def split: option.splits)

theorem getNext_four_cases_witness:
  "running (insert_pkt (simPacket 0 BULK 3) (ReorderingBuffer 0))
   \<and> fst (getNext (insert_pkt (simPacket 0 BULK 3) (ReorderingBuffer 0))) = Some (simPacket 0 BULK 3)
   \<and> total_released (snd (getNext (insert_pkt (simPacket 0 BULK 3) (ReorderingBuffer 0)))) = 1
   \<and> total_gaps (snd (getNext (insert_pkt (simPacket 0 BULK 3) (ReorderingBuffer 0)))) = 0"
proof -
  let ?s = "insert_pkt (simPacket 0 BULK 3) (ReorderingBuffer 0)"
  have run: "running ?s"
    by (simp add: insert_pkt_def ReorderingBuffer_def)
  have pending: "buffer ?s (next_expected_seq ?s) = Some (simPacket 0 BULK 3)"
    by (simp add: insert_pkt_def ReorderingBuffer_def simPacket_def)
  have counters: "total_released ?s = 0" "total_gaps ?s = 0"
    by (simp_all add: insert_pkt_def ReorderingBuffer_def)
  from getNext_four_cases [of ?s, THEN conjunct2, THEN conjunct1] run
  have "case buffer ?s (next_expected_seq ?s) of
           Some p \<Rightarrow>
             fst (getNext ?s) = Some p
             \<and> total_released (snd (getNext ?s)) = total_released ?s + 1
             \<and> total_gaps (snd (getNext ?s)) = total_gaps ?s
         | None \<Rightarrow>
             total_gaps (snd (getNext ?s)) = total_gaps ?s + 1
             \<and> (case buffer ?s (next_expected_seq ?s + 1) of
                  Some p \<Rightarrow>
                    fst (getNext ?s) = Some p
                    \<and> total_released (snd (getNext ?s)) = total_released ?s + 1
                | None \<Rightarrow>
                    fst (getNext ?s) = None
                    \<and> total_released (snd (getNext ?s)) = total_released ?s)"
    by blast
  with pending counters run show ?thesis by simp
qed

text \<open>
  The claim as stated fails in both directions: with only sequence number 1 pending
  and 0 awaited, one call counts a gap and also releases a packet; and a call on a
  stopped, empty buffer does neither.
\<close>

theorem getNext_both_counterexample:
  "fst (getNext (insert_pkt (simPacket 1 BULK 3) (ReorderingBuffer 0))) \<noteq> None
   \<and> total_released (snd (getNext (insert_pkt (simPacket 1 BULK 3) (ReorderingBuffer 0))))
       = total_released (insert_pkt (simPacket 1 BULK 3) (ReorderingBuffer 0)) + 1
   \<and> total_gaps (snd (getNext (insert_pkt (simPacket 1 BULK 3) (ReorderingBuffer 0))))
       = total_gaps (insert_pkt (simPacket 1 BULK 3) (ReorderingBuffer 0)) + 1
   \<and> fst (getNext (stop (ReorderingBuffer 0))) = None
   \<and> total_released (snd (getNext (stop (ReorderingBuffer 0))))
       = total_released (stop (ReorderingBuffer 0))
   \<and> total_gaps (snd (getNext (stop (ReorderingBuffer 0))))
       = total_gaps (stop (ReorderingBuffer 0))"
  by (simp add: getNext_def insert_pkt_def ReorderingBuffer_def simPacket_def stop_def)

text \<open>
  Claim C2, as amended. A call to \<open>getNext\<close> adds one to gaps exactly when, at the
  end of its wait, no packet with the awaited sequence number is pending and the buffer
  is not both stopped and empty; in every other call gaps is unchanged. That is the
  case whenever the deadline elapsed with the wait's predicate unmet, and also, with
  no deadline involved, when the buffer has been stopped while other packets are
  pending. In such a call the next expected sequence number moves past the awaited
  one; if the packet after it is pending, that packet is removed and returned in the
  same call, with released incremented and the next expected number advanced again;
  otherwise the call returns nothing. The state it leaves never awaits the skipped
  number again.
\<close>

theorem gap_declared:
  "(total_gaps (snd (getNext s)) = total_gaps s + 1
      \<longleftrightarrow> buffer s (next_expected_seq s) = None \<and> (running s \<or> buffer s \<noteq> Map.empty))
   \<and> (total_gaps (snd (getNext s)) \<noteq> total_gaps s + 1
        \<longrightarrow> total_gaps (snd (getNext s)) = total_gaps s)
   \<and> (deadline_elapsed s \<longleftrightarrow> running s \<and> buffer s (next_expected_seq s) = None)
   \<and> (deadline_elapsed s \<longrightarrow> total_gaps (snd (getNext s)) = total_gaps s + 1)
   \<and> (total_gaps (snd (getNext s)) = total_gaps s + 1 \<longrightarrow>
        (case buffer s (next_expected_seq s + 1) of
           Some p \<Rightarrow>
             getNext s =
               (Some p, s\<lparr>total_gaps := total_gaps s + 1,
                          buffer := (buffer s)(next_expected_seq s + 1 := None),
                          next_expected_seq := next_expected_seq s + 2,
                          total_released := total_released s + 1\<rparr>)
         | None \<Rightarrow>
             getNext s =
               (None, s\<lparr>total_gaps := total_gaps s + 1,
                        next_expected_seq := next_expected_seq s + 1\<rparr>))
        \<and> next_expected_seq (snd (getNext s)) \<noteq> next_expected_seq s)"
  by (auto simp add: getNext_def deadline_elapsed_def wait_until_def add.assoc dom_def
      split: option.splits)

theorem gap_declared_witness:
  "deadline_elapsed (insert_pkt (simPacket 1 BULK 3) (ReorderingBuffer 0))
   \<and> total_gaps (snd (getNext (insert_pkt (simPacket 1 BULK 3) (ReorderingBuffer 0)))) = 1
   \<and> fst (getNext (insert_pkt (simPacket 1 BULK 3) (ReorderingBuffer 0)))
       = Some (simPacket 1 BULK 3)
   \<and> next_expected_seq (snd (getNext (insert_pkt (simPacket 1 BULK 3) (ReorderingBuffer 0)))) = 2"
proof -
  let ?s = "insert_pkt (simPacket 1 BULK 3) (ReorderingBuffer 0)"
  have late: "deadline_elapsed ?s"
    by (simp add: deadline_elapsed_def wait_until_def insert_pkt_def ReorderingBuffer_def
        simPacket_def)
  have before: "total_gaps ?s = 0" "next_expected_seq ?s = 0"
    by (simp_all add: insert_pkt_def ReorderingBuffer_def)
  have following: "buffer ?s (next_expected_seq ?s + 1) = Some (simPacket 1 BULK 3)"
    by (simp add: insert_pkt_def ReorderingBuffer_def simPacket_def)
  note gap = gap_declared [of ?s]
  have counted: "total_gaps (snd (getNext ?s)) = total_gaps ?s + 1"
    using gap [THEN conjunct2, THEN conjunct2, THEN conjunct2, THEN conjunct1] late by blast
  from gap [THEN conjunct2, THEN conjunct2, THEN conjunct2, THEN conjunct2] counted
  have "case buffer ?s (next_expected_seq ?s + 1) of
           Some p \<Rightarrow>
             getNext ?s =
               (Some p, ?s\<lparr>total_gaps := total_gaps ?s + 1,
                          buffer := (buffer ?s)(next_expected_seq ?s + 1 := None),
                          next_expected_seq := next_expected_seq ?s + 2,
                          total_released := total_released ?s + 1\<rparr>)
         | None \<Rightarrow>
             getNext ?s =
               (None, ?s\<lparr>total_gaps := total_gaps ?s + 1,
                        next_expected_seq := next_expected_seq ?s + 1\<rparr>)"
    by blast
  with following have "getNext ?s =
               (Some (simPacket 1 BULK 3), ?s\<lparr>total_gaps := total_gaps ?s + 1,
                          buffer := (buffer ?s)(next_expected_seq ?s + 1 := None),
                          next_expected_seq := next_expected_seq ?s + 2,
                          total_released := total_released ?s + 1\<rparr>)"
    by simp
  with late counted before show ?thesis by simp
qed

text \<open>
  The claim as stated fails in its "only in that case": after \<open>stop\<close>, with sequence
  number 5 pending and 0 awaited, the wait returns at once (its predicate holds, no
  deadline has elapsed), and the call still counts a gap and moves on to 1.
\<close>

theorem gap_without_deadline_counterexample:
  "\<not> deadline_elapsed (stop (insert_pkt (simPacket 5 BULK 3) (ReorderingBuffer 0)))
   \<and> total_gaps (snd (getNext (stop (insert_pkt (simPacket 5 BULK 3) (ReorderingBuffer 0)))))
       = total_gaps (stop (insert_pkt (simPacket 5 BULK 3) (ReorderingBuffer 0))) + 1
   \<and> next_expected_seq (snd (getNext (stop (insert_pkt (simPacket 5 BULK 3) (ReorderingBuffer 0)))))
       = next_expected_seq (stop (insert_pkt (simPacket 5 BULK 3) (ReorderingBuffer 0))) + 1"
  by (simp add: getNext_def insert_pkt_def ReorderingBuffer_def simPacket_def stop_def
      deadline_elapsed_def wait_until_def)

text \<open>
  Claim C8, as amended. Every operation leaves the next expected sequence number as it
  was or adds 1 or 2 to it in 64-bit arithmetic (\<open>insert_pkt\<close> and \<open>stop\<close> leave
  it; \<open>getNext\<close> adds one for a skipped number and one for a released packet). So
  the value after an operation is at least the value before it whenever the value
  before is below \<open>2 ^ 64 - 2\<close>.
\<close>

theorem next_expected_step:
  "(next_expected_seq (snd (apply_op opn s)) = next_expected_seq s
    \<or> next_expected_seq (snd (apply_op opn s)) = next_expected_seq s + 1
    \<or> next_expected_seq (snd (apply_op opn s)) = next_expected_seq s + 2)
   \<and> (unat (next_expected_seq s) + 2 < 2 ^ 64
        \<longrightarrow> next_expected_seq s \<le> next_expected_seq (snd (apply_op opn s)))"
proof -
  have steps: "next_expected_seq (snd (apply_op opn s)) = next_expected_seq s
    \<or> next_expected_seq (snd (apply_op opn s)) = next_expected_seq s + 1
    \<or> next_expected_seq (snd (apply_op opn s)) = next_expected_seq s + 2"
    by (cases opn)
      (auto simp add: getNext_def Let_def insert_pkt_def stop_def add.assoc split: option.splits)
  have "next_expected_seq s \<le> next_expected_seq (snd (apply_op opn s))"
    if "unat (next_expected_seq s) + 2 < 2 ^ 64"
    using steps that word64_le_plus [of "next_expected_seq s" 1]
      word64_le_plus [of "next_expected_seq s" 2] by auto
  with steps show ?thesis by blast
qed

theorem next_expected_step_witness:
  "unat (next_expected_seq (ReorderingBuffer 0)) + 2 < 2 ^ 64
   \<and> next_expected_seq (ReorderingBuffer 0)
       \<le> next_expected_seq (snd (apply_op GetNext (ReorderingBuffer 0)))"
proof -
  have small: "unat (next_expected_seq (ReorderingBuffer 0)) + 2 < 2 ^ 64"
    by (simp add: ReorderingBuffer_def)
  from next_expected_step [of GetNext "ReorderingBuffer 0", THEN conjunct2] small
  show ?thesis by blast
qed

text \<open>
  The claim as stated fails for a buffer constructed with the start sequence
  \<open>2 ^ 64 - 1\<close>: the first \<open>getNext\<close> whose wait times out makes the next expected
  sequence number 0.
\<close>

theorem next_expected_wraps_counterexample:
  "\<not> next_expected_seq (ReorderingBuffer 18446744073709551615)
      \<le> next_expected_seq (snd (apply_op GetNext (ReorderingBuffer 18446744073709551615)))"
  by (simp add: getNext_def ReorderingBuffer_def)

section \<open>The priority router\<close>

lemma class_rank_eq_iff: "class_rank x = class_rank y \<longleftrightarrow> x = y"
  by (cases x; cases y; simp)

lemma class_rank_CONTROL: "x \<noteq> CONTROL \<Longrightarrow> class_rank CONTROL < class_rank x"
  by (cases x; simp)

lemma priority_value_rank:
  "x \<noteq> CONTROL \<Longrightarrow> y \<noteq> CONTROL \<Longrightarrow>
   priority_value x > priority_value y \<longleftrightarrow> class_rank x > class_rank y"
  by (cases x; cases y; simp)

lemma operator_gt_iff: "operator_gt a b \<longleftrightarrow> \<not> served_before a b"
proof (cases "priority a = priority b")
  case True
  then show ?thesis by (auto simp add: operator_gt_def served_before_def)
next
  case False
  then have ne: "class_rank (priority a) \<noteq> class_rank (priority b)"
    by (simp add: class_rank_eq_iff)
  show ?thesis
  proof (cases "priority a = CONTROL")
    case True
    with False class_rank_CONTROL [of "priority b"] show ?thesis
      by (auto simp add: operator_gt_def served_before_def)
  next
    case notA: False
    show ?thesis
    proof (cases "priority b = CONTROL")
      case True
      with False class_rank_CONTROL [of "priority a"] show ?thesis
        by (auto simp add: operator_gt_def served_before_def)
    next
      case notB: False
      from False notA notB ne priority_value_rank [of "priority a" "priority b"]
      show ?thesis
        by (auto simp add: operator_gt_def served_before_def)
    qed
  qed
qed

lemma served_before_total: "served_before a b \<or> served_before b a"
  using class_rank_eq_iff [of "priority a" "priority b"]
  by (auto simp add: served_before_def)

lemma served_before_trans: "served_before a b \<Longrightarrow> served_before b c \<Longrightarrow> served_before a c"
  by (auto simp add: served_before_def)

lemma served_before_refl: "served_before a a"
  by (simp add: served_before_def)

lemma foldl_least:
  "foldl (\<lambda>m y. if operator_gt m y then y else m) x xs \<in> set (x # xs)
   \<and> (\<forall>y\<in>set (x # xs). served_before (foldl (\<lambda>m y. if operator_gt m y then y else m) x xs) y)"
proof (induction xs arbitrary: x)
  case Nil
  show ?case by (simp add: served_before_refl)
next
  case (Cons z zs)
  let ?f = "\<lambda>m y. if operator_gt m y then y else m"
  let ?t = "foldl ?f (?f x z) zs"
  from Cons.IH [of "?f x z"]
  have mem: "?t \<in> set (?f x z # zs)" and least: "\<forall>y\<in>set (?f x z # zs). served_before ?t y"
    by blast+
  have fx: "served_before (?f x z) x" and fz: "served_before (?f x z) z"
    using served_before_total [of x z]
    by (auto simp add: operator_gt_iff served_before_refl)
  from least have "served_before ?t (?f x z)" by simp
  with fx fz have "served_before ?t x" "served_before ?t z"
    by (blast intro: served_before_trans)+
  moreover from mem have "?t \<in> set (x # z # zs)" by (auto split: if_splits)
  ultimately show ?case using least by simp
qed

lemma pq_top_least:
  assumes "q \<noteq> []"
  obtains t where "pq_top q = Some t" "t \<in> set q" "\<forall>y\<in>set q. served_before t y"
proof (cases q)
  case Nil
  with assms show ?thesis by simp
next
  case (Cons x xs)
  with foldl_least [of x xs] that show ?thesis by simp
qed

lemma pq_top_None: "pq_top q = None \<longleftrightarrow> q = []"
  by (cases q) simp_all

lemma PriorityRouter_lengths:
  "PriorityRouter n = Inr r \<Longrightarrow> 0 \<le> n \<and> length (queues r) = nat n \<and> length (queue_sizes r) = nat n
     \<and> (\<forall>i < nat n. queues r ! i = [])"
  by (auto simp add: PriorityRouter_def split: if_splits)

lemma route_ok:
  assumes "unat (destination_id p) mod length (queues r) = i" "i < length (queues r)"
    "i < 16" "length (queue_sizes r) = length (queues r)"
  shows "\<exists>r'. route p r = Inr r' \<and> queues r' ! i = queues r ! i @ [p]
     \<and> length (queues r') = length (queues r) \<and> length (queue_sizes r') = length (queue_sizes r)"
  using assms by (auto simp add: route_def Let_def num_mutexes_def pq_push_def)

lemma route_all_ok:
  assumes "\<forall>p\<in>set ps. unat (destination_id p) mod length (queues r) = i" "i < length (queues r)"
    "i < 16" "length (queue_sizes r) = length (queues r)"
  shows "\<exists>r'. route_all ps r = Inr r' \<and> queues r' ! i = queues r ! i @ ps
     \<and> length (queues r') = length (queues r) \<and> length (queue_sizes r') = length (queue_sizes r)"
  using assms
proof (induction ps arbitrary: r)
  case Nil
  then show ?case by simp
next
  case (Cons p ps)
  from Cons.prems route_ok [of p r i]
  obtain r1 where r1: "route p r = Inr r1" "queues r1 ! i = queues r ! i @ [p]"
    "length (queues r1) = length (queues r)" "length (queue_sizes r1) = length (queue_sizes r)"
    by auto
  with Cons.prems have "\<exists>r'. route_all ps r1 = Inr r' \<and> queues r' ! i = queues r1 ! i @ ps
     \<and> length (queues r') = length (queues r1) \<and> length (queue_sizes r') = length (queue_sizes r1)"
    by (intro Cons.IH) auto
  with r1 show ?case by auto
qed

lemma dequeue_nonempty:
  assumes "0 \<le> q" "nat q < length (queues r)" "nat q < 16"
    "length (queue_sizes r) = length (queues r)" "queues r ! nat q \<noteq> []"
  shows "\<exists>t r'. dequeue q r = Inr (Some t, r') \<and> t \<in> set (queues r ! nat q)
     \<and> (\<forall>y\<in>set (queues r ! nat q). served_before t y)
     \<and> queues r' ! nat q = remove1 t (queues r ! nat q)
     \<and> length (queues r') = length (queues r) \<and> length (queue_sizes r') = length (queue_sizes r)"
proof -
  from assms(5) obtain t where t: "pq_top (queues r ! nat q) = Some t" "t \<in> set (queues r ! nat q)"
    "\<forall>y\<in>set (queues r ! nat q). served_before t y"
    by (rule pq_top_least)
  with assms show ?thesis
    by (auto simp add: dequeue_def num_mutexes_def pq_pop_def)
qed

lemma dequeue_empty:
  assumes "0 \<le> q" "nat q < length (queues r)" "nat q < 16" "queues r ! nat q = []"
  shows "dequeue q r = Inr (None, r)"
  using assms by (auto simp add: dequeue_def num_mutexes_def)

lemma dequeue_n_sorted:
  assumes "0 \<le> q" "nat q < length (queues r)" "nat q < 16"
    "length (queue_sizes r) = length (queues r)" "length (queues r ! nat q) = n"
  shows "\<exists>out r'. dequeue_n n q r = Inr (map Some out, r') \<and> mset out = mset (queues r ! nat q)
     \<and> sorted_wrt served_before out \<and> queues r' ! nat q = []
     \<and> length (queues r') = length (queues r)"
  using assms
proof (induction n arbitrary: r)
  case 0
  then show ?case by simp
next
  case (Suc n)
  from Suc.prems have "queues r ! nat q \<noteq> []" by auto
  with Suc.prems dequeue_nonempty [of q r]
  obtain t r1 where t: "dequeue q r = Inr (Some t, r1)" "t \<in> set (queues r ! nat q)"
    "\<forall>y\<in>set (queues r ! nat q). served_before t y"
    "queues r1 ! nat q = remove1 t (queues r ! nat q)"
    "length (queues r1) = length (queues r)" "length (queue_sizes r1) = length (queue_sizes r)"
    by blast
  from t Suc.prems have len: "length (queues r1 ! nat q) = n"
    by (simp add: length_remove1)
  from Suc.IH [of r1] Suc.prems t len
  obtain out r2 where out: "dequeue_n n q r1 = Inr (map Some out, r2)"
    "mset out = mset (queues r1 ! nat q)" "sorted_wrt served_before out"
    "queues r2 ! nat q = []" "length (queues r2) = length (queues r1)"
    by auto
  from out(2) t(4) have "set out \<subseteq> set (queues r ! nat q)"
    by (metis mset_eq_setD set_remove1_subset)
  with t(3) out(3) have sorted: "sorted_wrt served_before (t # out)" by auto
  from out(2) t(2,4) have bag: "mset (t # out) = mset (queues r ! nat q)" by simp
  from t(1) out(1) have "dequeue_n (Suc n) q r = Inr (map Some (t # out), r2)" by simp
  with sorted bag out(4,5) t(5) show ?case by metis
qed

lemma scenario_C_evaluated:
  "(case PriorityRouter 8 of
      Inl e \<Rightarrow> False
    | Inr r0 \<Rightarrow>
        (case route_all scenario_C r0 of
           Inl e \<Rightarrow> False
         | Inr r1 \<Rightarrow>
             (case dequeue_n 5 3 r1 of
                Inl e \<Rightarrow> False
              | Inr (out, r2) \<Rightarrow>
                  map (map_option sequence_number) out
                    = [Some 11, Some 13, Some 12, Some 14, Some 10])))"
  by code_simp

text \<open>
  Claim C3. Let a router be constructed with \<open>n\<close> queues, and let every packet of
  a list be for a destination that maps to the queue \<open>q\<close> (one of the first 16,
  the ones with a mutex). Routing the packets in any order succeeds, and as many calls
  of \<open>dequeue\<close> on \<open>q\<close> as there are packets return exactly these packets, each
  once, in an order in which every packet comes before all packets of a lower class
  (CONTROL, then REAL_TIME, then STREAMING, then BULK) and, within its class, before
  all packets with a higher sequence number; the next call returns nothing. In the
  scenario of five packets this order is 11, 13, 12, 14, 10.
\<close>

theorem priority_order:
  assumes "PriorityRouter n = Inr r0" "0 \<le> q" "q < n" "q < 16"
    "\<forall>p\<in>set ps. unat (destination_id p) mod nat n = nat q"
  shows "\<exists>r1 out r2. route_all ps r0 = Inr r1
     \<and> dequeue_n (length ps) q r1 = Inr (map Some out, r2)
     \<and> mset out = mset ps \<and> sorted_wrt served_before out
     \<and> dequeue q r2 = Inr (None, r2)"
proof -
  from assms(1) have r0: "length (queues r0) = nat n" "length (queue_sizes r0) = nat n"
    "\<forall>i < nat n. queues r0 ! i = []"
    using PriorityRouter_lengths by blast+
  from assms have q: "nat q < nat n" "nat q < 16" by auto
  from route_all_ok [of ps r0 "nat q"] assms(5) r0 q
  obtain r1 where r1: "route_all ps r0 = Inr r1" "queues r1 ! nat q = ps"
    "length (queues r1) = nat n" "length (queue_sizes r1) = nat n"
    by auto
  from dequeue_n_sorted [of q r1 "length ps"] assms(2) r1 q
  obtain out r2 where out: "dequeue_n (length ps) q r1 = Inr (map Some out, r2)"
    "mset out = mset ps" "sorted_wrt served_before out" "queues r2 ! nat q = []"
    "length (queues r2) = nat n"
    by auto
  from dequeue_empty [of q r2] assms(2) q out have "dequeue q r2 = Inr (None, r2)" by simp
  with r1 out show ?thesis by blast
qed

theorem priority_order_witness:
  "(0::int) \<le> 3 \<and> (3::int) < 8 \<and> (3::int) < 16
   \<and> map (\<lambda>p. unat (destination_id p) mod nat 8) scenario_C = [3, 3, 3, 3, 3]
   \<and> (\<exists>r0 r1 out r2. PriorityRouter 8 = Inr r0 \<and> route_all scenario_C r0 = Inr r1
         \<and> dequeue_n 5 3 r1 = Inr (map Some out, r2)
         \<and> mset out = mset scenario_C \<and> sorted_wrt served_before out
         \<and> map sequence_number out = [11, 13, 12, 14, 10]
         \<and> dequeue 3 r2 = Inr (None, r2))"
proof -
  obtain r0 where r0: "PriorityRouter 8 = Inr r0"
    by (simp add: PriorityRouter_def)
  have dest: "map (\<lambda>p. unat (destination_id p) mod nat 8) scenario_C = [3, 3, 3, 3, 3]"
    by (simp add: scenario_C_def simPacket_def)
  have all: "\<forall>p\<in>set scenario_C. unat (destination_id p) mod nat 8 = nat 3"
    by (simp add: scenario_C_def simPacket_def)
  have len: "length scenario_C = 5"
    by (simp add: scenario_C_def)
  from priority_order [OF r0 _ _ _ all]
  have "\<exists>r1 out r2. route_all scenario_C r0 = Inr r1
     \<and> dequeue_n (length scenario_C) 3 r1 = Inr (map Some out, r2)
     \<and> mset out = mset scenario_C \<and> sorted_wrt served_before out
     \<and> dequeue 3 r2 = Inr (None, r2)"
    by simp
  then obtain r1 out r2 where run: "route_all scenario_C r0 = Inr r1"
    "dequeue_n (length scenario_C) 3 r1 = Inr (map Some out, r2)" "mset out = mset scenario_C"
    "sorted_wrt served_before out" "dequeue 3 r2 = Inr (None, r2)"
    by blast
  from run(2) len have deq: "dequeue_n 5 3 r1 = Inr (map Some out, r2)"
    by simp
  from scenario_C_evaluated have "map (map_option sequence_number) (map Some out)
                    = [Some 11, Some 13, Some 12, Some 14, Some 10]"
    by (simp only: r0 run(1) deq sum.case prod.case)
  then have "map sequence_number out = [11, 13, 12, 14, 10]"
    by (simp add: map_eq_Cons_conv)
  with r0 run(1,3,4,5) deq
  have "PriorityRouter 8 = Inr r0 \<and> route_all scenario_C r0 = Inr r1
         \<and> dequeue_n 5 3 r1 = Inr (map Some out, r2)
         \<and> mset out = mset scenario_C \<and> sorted_wrt served_before out
         \<and> map sequence_number out = [11, 13, 12, 14, 10]
         \<and> dequeue 3 r2 = Inr (None, r2)"
    by (intro conjI)
  then have "\<exists>r0 r1 out r2. PriorityRouter 8 = Inr r0 \<and> route_all scenario_C r0 = Inr r1
         \<and> dequeue_n 5 3 r1 = Inr (map Some out, r2)
         \<and> mset out = mset scenario_C \<and> sorted_wrt served_before out
         \<and> map sequence_number out = [11, 13, 12, 14, 10]
         \<and> dequeue 3 r2 = Inr (None, r2)"
    by (intro exI)
  moreover have "(0::int) \<le> 3 \<and> (3::int) < 8 \<and> (3::int) < 16"
    by simp
  ultimately show ?thesis using dest by (simp only: simp_thms)
qed

text \<open>
  Claim C6. \<open>route\<close> locks the mutex with the index \<open>destination_id mod n\<close> and
  \<open>dequeue\<close> the one with the index it is given, out of an array of 16. For a router
  of \<open>n > 0\<close> queues, in any state it reaches, no packet makes \<open>route\<close> leave the
  array exactly when \<open>n \<le> 16\<close>, and no queue index below \<open>n\<close> makes
  \<open>dequeue\<close> leave it exactly when \<open>n \<le> 16\<close>; with more than 16 queues a
  packet for destination 16, and the queue index 16, are outside the array.
\<close>

theorem mutex_index_bounds:
  assumes "PriorityRouter n = Inr r0" "0 < n" "length (queues r) = length (queues r0)"
  shows "((\<forall>pkt. route pkt r \<noteq> Inl MutexIndexOutOfBounds) \<longleftrightarrow> n \<le> 16)
     \<and> ((\<forall>q. 0 \<le> q \<and> q < n \<longrightarrow> dequeue q r \<noteq> Inl MutexIndexOutOfBounds) \<longleftrightarrow> n \<le> 16)
     \<and> (16 < n \<longrightarrow> route (simPacket 0 BULK 16) r = Inl MutexIndexOutOfBounds
                  \<and> dequeue 16 r = Inl MutexIndexOutOfBounds)"
proof -
  from assms have len: "length (queues r) = nat n" "0 < nat n"
    using PriorityRouter_lengths by auto
  have small: "route pkt r \<noteq> Inl MutexIndexOutOfBounds" if "n \<le> 16" for pkt
  proof -
    have "unat (destination_id pkt) mod nat n < nat n" using len by simp
    with that have "unat (destination_id pkt) mod nat n < 16" by linarith
    then show ?thesis using len by (auto simp add: route_def Let_def num_mutexes_def)
  qed
  have large: "route (simPacket 0 BULK 16) r = Inl MutexIndexOutOfBounds" if "16 < n"
    using that len by (simp add: route_def Let_def num_mutexes_def simPacket_def)
  have dsmall: "dequeue q r \<noteq> Inl MutexIndexOutOfBounds" if "n \<le> 16" "0 \<le> q" "q < n" for q
    using that len by (auto simp add: dequeue_def num_mutexes_def split: option.splits)
  have dlarge: "dequeue 16 r = Inl MutexIndexOutOfBounds" if "16 < n"
    using that len by (simp add: dequeue_def num_mutexes_def)
  show ?thesis
    using small large dsmall dlarge by (metis linorder_not_less order_less_imp_le zero_le_numeral)
qed

theorem mutex_index_bounds_witness:
  "(0::int) < 17 \<and> (0::int) < 16
   \<and> (\<exists>r0. PriorityRouter 17 = Inr r0
         \<and> route (simPacket 0 BULK 16) r0 = Inl MutexIndexOutOfBounds
         \<and> dequeue 16 r0 = Inl MutexIndexOutOfBounds)
   \<and> (\<exists>r0. PriorityRouter 16 = Inr r0
         \<and> (\<forall>pkt. route pkt r0 \<noteq> Inl MutexIndexOutOfBounds))"
proof -
  obtain r17 where r17: "PriorityRouter 17 = Inr r17"
    by (simp add: PriorityRouter_def)
  obtain r16 where r16: "PriorityRouter 16 = Inr r16"
    by (simp add: PriorityRouter_def)
  from mutex_index_bounds [OF r17, of r17]
  have "route (simPacket 0 BULK 16) r17 = Inl MutexIndexOutOfBounds
        \<and> dequeue 16 r17 = Inl MutexIndexOutOfBounds"
    by simp
  moreover from mutex_index_bounds [OF r16, of r16]
  have "\<forall>pkt. route pkt r16 \<noteq> Inl MutexIndexOutOfBounds"
    by simp
  ultimately have "(\<exists>r0. PriorityRouter 17 = Inr r0
         \<and> route (simPacket 0 BULK 16) r0 = Inl MutexIndexOutOfBounds
         \<and> dequeue 16 r0 = Inl MutexIndexOutOfBounds)
   \<and> (\<exists>r0. PriorityRouter 16 = Inr r0
         \<and> (\<forall>pkt. route pkt r0 \<noteq> Inl MutexIndexOutOfBounds))"
    using r17 r16 by blast
  moreover have "(0::int) < 17 \<and> (0::int) < 16"
    by simp
  ultimately show ?thesis by (simp only: simp_thms)
qed

section \<open>The reordering buffer: release in order\<close>

lemma of_nat64_neq_0: "0 < k \<Longrightarrow> k < 2 ^ 64 \<Longrightarrow> (of_nat k :: 64 word) \<noteq> 0"
  by (simp add: word_of_nat_eq_0_iff) (meson nat_dvd_not_less)

lemma plus_of_nat64_neq: "0 < k \<Longrightarrow> k < 2 ^ 64 \<Longrightarrow> (x :: 64 word) + of_nat k \<noteq> x"
  using of_nat64_neq_0 [of k] by simp

lemma unat_plus_of_nat64: "unat (x::64 word) + k < 2 ^ 64 \<Longrightarrow> unat (x + of_nat k) = unat x + k"
  by (simp add: unat_word_ariths unat_of_nat take_bit_eq_mod)

lemma of_nat64_inj: "j < 2 ^ 64 \<Longrightarrow> k < 2 ^ 64 \<Longrightarrow> (of_nat j :: 64 word) = of_nat k \<Longrightarrow> j = k"
  by (simp add: word_of_nat_eq_iff take_bit_eq_mod)

subsection \<open>Inserting a list of packets\<close>

lemma fold_insert_fields:
  "next_expected_seq (fold insert_pkt ps s) = next_expected_seq s
   \<and> running (fold insert_pkt ps s) = running s
   \<and> total_released (fold insert_pkt ps s) = total_released s
   \<and> total_gaps (fold insert_pkt ps s) = total_gaps s"
  by (induction ps arbitrary: s) (simp_all add: insert_pkt_def)

lemma fold_insert_dom:
  "dom (buffer (fold insert_pkt ps s)) = dom (buffer s) \<union> sequence_number ` set ps"
  by (induction ps arbitrary: s) (auto simp add: insert_pkt_def)

lemma fold_insert_lookup:
  "buffer (fold insert_pkt ps s) k = Some p \<Longrightarrow>
   buffer s k = Some p \<or> (p \<in> set ps \<and> sequence_number p = k)"
proof (induction ps arbitrary: s)
  case Nil
  then show ?case by simp
next
  case (Cons a ps)
  from Cons.IH [of "insert_pkt a s"] Cons.prems
  show ?case by (auto simp add: insert_pkt_def split: if_splits)
qed

subsection \<open>Calls that find their packet\<close>

lemma getNext_n_in_order:
  assumes "\<forall>i<n. next_expected_seq s + of_nat i \<in> dom (buffer s)" "n \<le> 2 ^ 64"
  shows "fst (getNext_n n s) = map (\<lambda>i. buffer s (next_expected_seq s + of_nat i)) [0..<n]
     \<and> buffer (snd (getNext_n n s))
         = (\<lambda>k. if k \<in> (\<lambda>i. next_expected_seq s + of_nat i) ` {..<n} then None else buffer s k)
     \<and> next_expected_seq (snd (getNext_n n s)) = next_expected_seq s + of_nat n
     \<and> total_released (snd (getNext_n n s)) = total_released s + of_nat n
     \<and> total_gaps (snd (getNext_n n s)) = total_gaps s
     \<and> running (snd (getNext_n n s)) = running s"
  using assms
proof (induction n arbitrary: s)
  case 0
  then show ?case by simp
next
  case (Suc n)
  let ?a = "next_expected_seq s"
  from Suc.prems(1) have "?a + of_nat 0 \<in> dom (buffer s)" by blast
  then obtain p where p: "buffer s ?a = Some p" by auto
  let ?s1 = "s\<lparr>buffer := (buffer s)(?a := None), next_expected_seq := ?a + 1,
                total_released := total_released s + 1\<rparr>"
  from p have step: "getNext s = (Some p, ?s1)" by (rule getNext_release)
  have shift: "buffer ?s1 (next_expected_seq ?s1 + of_nat i) = buffer s (?a + of_nat (Suc i))"
    if "i < n" for i
  proof -
    from that Suc.prems(2) have "0 < Suc i" "Suc i < 2 ^ 64" by simp_all
    then have "?a + of_nat (Suc i) \<noteq> ?a" by (rule plus_of_nat64_neq)
    then show ?thesis by (simp add: ac_simps)
  qed
  have pending: "\<forall>i<n. next_expected_seq ?s1 + of_nat i \<in> dom (buffer ?s1)"
  proof (intro allI impI)
    fix i assume i: "i < n"
    with Suc.prems(1) have "?a + of_nat (Suc i) \<in> dom (buffer s)" by (metis Suc_less_eq)
    with shift [OF i] show "next_expected_seq ?s1 + of_nat i \<in> dom (buffer ?s1)"
      by (simp add: dom_def)
  qed
  from Suc.prems(2) have "n \<le> 2 ^ 64" by simp
  note IH = Suc.IH [OF pending this]
  have results: "fst (getNext_n (Suc n) s) = map (\<lambda>i. buffer s (?a + of_nat i)) [0..<Suc n]"
  proof -
    have "map (\<lambda>i. buffer s (?a + of_nat i)) [0..<Suc n]
          = buffer s ?a # map (\<lambda>i. buffer s (?a + of_nat (Suc i))) [0..<n]"
      by (simp add: upt_conv_Cons map_Suc_upt [symmetric] del: upt_Suc)
    also have "map (\<lambda>i. buffer s (?a + of_nat (Suc i))) [0..<n]
          = map (\<lambda>i. buffer ?s1 (next_expected_seq ?s1 + of_nat i)) [0..<n]"
      using shift by simp
    finally show ?thesis using IH p step by (simp add: case_prod_unfold)
  qed
  have image: "(\<lambda>i. ?a + of_nat i) ` {..<Suc n}
     = insert ?a ((\<lambda>i. next_expected_seq ?s1 + of_nat i) ` {..<n})"
    by (simp add: lessThan_Suc_eq_insert_0 image_image ac_simps)
  have map': "buffer (snd (getNext_n (Suc n) s))
         = (\<lambda>k. if k \<in> (\<lambda>i. ?a + of_nat i) ` {..<Suc n} then None else buffer s k)"
    using IH step unfolding image by (auto simp add: case_prod_unfold fun_eq_iff)
  have rest: "next_expected_seq (snd (getNext_n (Suc n) s)) = ?a + of_nat (Suc n)
     \<and> total_released (snd (getNext_n (Suc n) s)) = total_released s + of_nat (Suc n)
     \<and> total_gaps (snd (getNext_n (Suc n) s)) = total_gaps s
     \<and> running (snd (getNext_n (Suc n) s)) = running s"
    using IH step by (simp add: case_prod_unfold ac_simps)
  from results map' rest show ?case by blast
qed

lemma sorted_offsets:
  "unat (x::64 word) + n \<le> 2 ^ 64 \<Longrightarrow> sorted_wrt (<) (map (\<lambda>i. x + of_nat i) [0..<n])"
proof -
  assume bound: "unat x + n \<le> 2 ^ 64"
  have "x + of_nat i < x + of_nat j" if "i < j" "j < n" for i j
  proof -
    from that bound have "unat x + i < 2 ^ 64" "unat x + j < 2 ^ 64" by simp_all
    then have "unat (x + of_nat i) = unat x + i" "unat (x + of_nat j) = unat x + j"
      by (simp_all add: unat_plus_of_nat64)
    with that show ?thesis by (simp add: word_less_nat_alt)
  qed
  then show ?thesis
    by (simp add: sorted_wrt_map sorted_wrt_iff_nth_less)
qed

text \<open>
  Claim C1. Let the packets of a list be inserted, in any order, into a buffer
  constructed with the start sequence \<open>start\<close>, and let their sequence numbers be
  exactly the \<open>n\<close> numbers \<open>start, start + 1, \<dots>\<close> (a contiguous set, which does
  not pass \<open>2 ^ 64 - 1\<close>). Then \<open>n\<close> calls of \<open>getNext\<close> each return a packet; the
  packets returned are inserted ones, their sequence numbers are \<open>start, start + 1,
  \<dots>\<close> in this order, strictly increasing, and are the inserted set; no gap is
  counted (no call depends on its deadline) and nothing stays pending. Inserting 2, 0,
  1 gives 0, then 1, then 2.
\<close>

theorem in_order_release:
  assumes "sequence_number ` set ps = (\<lambda>i. start + of_nat i) ` {..<n}"
    and "unat start + n \<le> 2 ^ 64"
  shows "\<exists>qs. fst (getNext_n n (fold insert_pkt ps (ReorderingBuffer start))) = map Some qs
     \<and> map sequence_number qs = map (\<lambda>i. start + of_nat i) [0..<n]
     \<and> sorted_wrt (<) (map sequence_number qs)
     \<and> set qs \<subseteq> set ps
     \<and> sequence_number ` set qs = sequence_number ` set ps
     \<and> buffer (snd (getNext_n n (fold insert_pkt ps (ReorderingBuffer start)))) = Map.empty
     \<and> total_released (snd (getNext_n n (fold insert_pkt ps (ReorderingBuffer start)))) = of_nat n
     \<and> total_gaps (snd (getNext_n n (fold insert_pkt ps (ReorderingBuffer start)))) = 0"
proof -
  let ?s0 = "fold insert_pkt ps (ReorderingBuffer start)"
  let ?qs = "map (\<lambda>i. the (buffer ?s0 (start + of_nat i))) [0..<n]"
  have fields: "next_expected_seq ?s0 = start" "total_released ?s0 = 0" "total_gaps ?s0 = 0"
    using fold_insert_fields [of ps "ReorderingBuffer start"]
    by (simp_all add: ReorderingBuffer_def)
  have dom0: "dom (buffer ?s0) = (\<lambda>i. start + of_nat i) ` {..<n}"
    using fold_insert_dom [of ps "ReorderingBuffer start"] assms(1)
    by (simp add: ReorderingBuffer_def)
  have entry: "p \<in> set ps \<and> sequence_number p = k" if "buffer ?s0 k = Some p" for k p
    using fold_insert_lookup [OF that] by (simp add: ReorderingBuffer_def)
  have pending: "\<forall>i<n. next_expected_seq ?s0 + of_nat i \<in> dom (buffer ?s0)"
    using dom0 fields by auto
  from assms(2) have n: "n \<le> 2 ^ 64" by simp
  note calls = getNext_n_in_order [OF pending n]
  have some: "buffer ?s0 (start + of_nat i) = Some (the (buffer ?s0 (start + of_nat i)))"
    if "i < n" for i
    using pending that fields by (auto simp add: dom_def)
  have results: "fst (getNext_n n ?s0) = map Some ?qs"
    using calls some fields by simp
  have seqs: "map sequence_number ?qs = map (\<lambda>i. start + of_nat i) [0..<n]"
    using some entry by (simp add: comp_def)
  have sorted: "sorted_wrt (<) (map sequence_number ?qs)"
    unfolding seqs using assms(2) by (rule sorted_offsets)
  have sub: "set ?qs \<subseteq> set ps"
    using some entry by auto
  have same: "sequence_number ` set ?qs = sequence_number ` set ps"
  proof -
    have "sequence_number ` set ?qs = set (map sequence_number ?qs)" by (simp only: set_map)
    also have "\<dots> = (\<lambda>i. start + of_nat i) ` {..<n}"
      unfolding seqs by (simp add: atLeast0LessThan)
    finally show ?thesis using assms(1) by simp
  qed
  have drained: "buffer (snd (getNext_n n ?s0)) = Map.empty"
  proof
    fix k
    show "buffer (snd (getNext_n n ?s0)) k = None"
      using calls dom0 fields by (auto simp add: dom_def)
  qed
  have counters: "total_released (snd (getNext_n n ?s0)) = of_nat n"
    "total_gaps (snd (getNext_n n ?s0)) = 0"
    using calls fields by simp_all
  from results seqs sorted sub same drained counters show ?thesis by blast
qed


theorem in_order_release_witness:
  "sequence_number ` set scenario_A = (\<lambda>i. 0 + of_nat i) ` {..<3}
   \<and> unat (0 :: 64 word) + 3 \<le> 2 ^ 64
   \<and> fst (getNext_n 3 (fold insert_pkt scenario_A (ReorderingBuffer 0)))
       = [Some (simPacket 0 REAL_TIME 3), Some (simPacket 1 CONTROL 3), Some (simPacket 2 BULK 3)]
   \<and> (\<exists>qs. fst (getNext_n 3 (fold insert_pkt scenario_A (ReorderingBuffer 0))) = map Some qs
         \<and> map sequence_number qs = [0, 1, 2]
         \<and> sorted_wrt (<) (map sequence_number qs)
         \<and> total_gaps (snd (getNext_n 3 (fold insert_pkt scenario_A (ReorderingBuffer 0)))) = 0)"
proof -
  have three: "{..<3::nat} = {0, 1, 2}" by auto
  have contiguous: "sequence_number ` set scenario_A = (\<lambda>i. 0 + of_nat i) ` {..<3}"
    unfolding three by (auto simp add: scenario_A_def simPacket_def)
  have bound: "unat (0 :: 64 word) + 3 \<le> 2 ^ 64" by simp
  have upt: "map (\<lambda>i. (0 :: 64 word) + of_nat i) [0..<3] = [0, 1, 2]"
    by (simp add: numeral_3_eq_3)
  from in_order_release [OF contiguous bound]
  obtain qs where qs: "fst (getNext_n 3 (fold insert_pkt scenario_A (ReorderingBuffer 0))) = map Some qs"
    "map sequence_number qs = map (\<lambda>i. 0 + of_nat i) [0..<3]"
    "sorted_wrt (<) (map sequence_number qs)"
    "total_gaps (snd (getNext_n 3 (fold insert_pkt scenario_A (ReorderingBuffer 0)))) = 0"
    by blast
  from qs upt
  have general: "\<exists>qs. fst (getNext_n 3 (fold insert_pkt scenario_A (ReorderingBuffer 0))) = map Some qs
         \<and> map sequence_number qs = [0, 1, 2]
         \<and> sorted_wrt (<) (map sequence_number qs)
         \<and> total_gaps (snd (getNext_n 3 (fold insert_pkt scenario_A (ReorderingBuffer 0)))) = 0"
    by auto
  have evaluated: "fst (getNext_n 3 (fold insert_pkt scenario_A (ReorderingBuffer 0)))
       = [Some (simPacket 0 REAL_TIME 3), Some (simPacket 1 CONTROL 3), Some (simPacket 2 BULK 3)]"
    by (simp add: scenario_A_def simPacket_def getNext_def insert_pkt_def ReorderingBuffer_def
        numeral_3_eq_3)
  from contiguous bound evaluated general show ?thesis by (intro conjI)
qed


section \<open>The reordering buffer: runs\<close>

lemma keyed_insert: "keyed s \<Longrightarrow> keyed (insert_pkt p s)"
  by (simp add: keyed_def insert_pkt_def)

lemma keyed_stop: "keyed s \<Longrightarrow> keyed (stop s)"
  by (simp add: keyed_def stop_def)

lemma keyed_getNext: "keyed s \<Longrightarrow> keyed (snd (getNext s))"
  by (auto simp add: keyed_def getNext_def Let_def split: option.splits)

lemma keyed_apply_op: "keyed s \<Longrightarrow> keyed (snd (apply_op opn s))"
  by (cases opn) (simp_all add: keyed_insert keyed_stop keyed_getNext)

lemma keyed_initial: "keyed (ReorderingBuffer start)"
  by (simp add: keyed_def ReorderingBuffer_def)

lemma getNext_window:
  assumes "keyed s"
  shows "\<exists>d\<le>2. next_expected_seq (snd (getNext s)) = next_expected_seq s + of_nat d
     \<and> (\<forall>p. fst (getNext s) = Some p \<longrightarrow>
          (\<exists>e<d. sequence_number p = next_expected_seq s + of_nat e))"
proof -
  consider (terminal) "\<not> running s \<and> buffer s = Map.empty"
    | (release) p where "buffer s (next_expected_seq s) = Some p"
    | (gap) "running s \<or> buffer s \<noteq> Map.empty" "buffer s (next_expected_seq s) = None"
        "buffer s (next_expected_seq s + 1) = None"
    | (both) p where "buffer s (next_expected_seq s) = None"
        "buffer s (next_expected_seq s + 1) = Some p"
    by (cases "buffer s (next_expected_seq s)"; cases "buffer s (next_expected_seq s + 1)") auto
  then show ?thesis
  proof cases
    case terminal
    then have "getNext s = (None, s)" by (simp add: getNext_terminal)
    then show ?thesis by (intro exI [of _ 0]) simp
  next
    case release
    from release assms have "sequence_number p = next_expected_seq s" by (simp add: keyed_def)
    with getNext_release [OF release] show ?thesis
      by (intro exI [of _ 1]) simp
  next
    case gap
    from getNext_gap_only [OF gap] show ?thesis
      by (intro exI [of _ 1]) simp
  next
    case both
    from both assms have "sequence_number p = next_expected_seq s + 1" by (simp add: keyed_def)
    with getNext_gap_release [OF both] show ?thesis
      by (intro exI [of _ 2]) (auto intro: exI [of _ 1])
  qed
qed

lemma apply_op_window:
  assumes "keyed s"
  shows "\<exists>d\<le>2 * getNext_calls [opn].
     next_expected_seq (snd (apply_op opn s)) = next_expected_seq s + of_nat d
     \<and> (\<forall>p. fst (apply_op opn s) = Some p \<longrightarrow>
          (\<exists>e<d. sequence_number p = next_expected_seq s + of_nat e))"
proof (cases opn)
  case (Insert p)
  then show ?thesis by (simp add: getNext_calls_def insert_pkt_def)
next
  case GetNext
  with getNext_window [OF assms] show ?thesis by (simp add: getNext_calls_def)
next
  case Stop
  then show ?thesis by (simp add: getNext_calls_def stop_def)
qed

lemma run_Cons:
  "run (opn # ops) s =
     ((case fst (apply_op opn s) of None \<Rightarrow> [] | Some p \<Rightarrow> [p])
        @ fst (run ops (snd (apply_op opn s))),
      snd (run ops (snd (apply_op opn s))))"
  by (simp add: case_prod_unfold Let_def split: option.splits)

lemma getNext_calls_Cons: "getNext_calls (opn # ops) = getNext_calls [opn] + getNext_calls ops"
  by (simp add: getNext_calls_def)

lemma run_window:
  assumes "keyed s"
  shows "\<exists>js. map sequence_number (fst (run ops s)) = map (\<lambda>j. next_expected_seq s + of_nat j) js
     \<and> sorted_wrt (<) js \<and> (\<forall>j\<in>set js. j < 2 * getNext_calls ops)"
  using assms
proof (induction ops arbitrary: s)
  case Nil
  show ?case by (intro exI [of _ "[]"]) simp
next
  case (Cons opn ops)
  let ?s1 = "snd (apply_op opn s)"
  from apply_op_window [OF Cons.prems, of opn]
  obtain d where d: "d \<le> 2 * getNext_calls [opn]"
    "next_expected_seq ?s1 = next_expected_seq s + of_nat d"
    "\<forall>p. fst (apply_op opn s) = Some p \<longrightarrow>
          (\<exists>e<d. sequence_number p = next_expected_seq s + of_nat e)"
    by blast
  from Cons.prems have "keyed ?s1" by (rule keyed_apply_op)
  from Cons.IH [OF this]
  obtain js where js: "map sequence_number (fst (run ops ?s1))
       = map (\<lambda>j. next_expected_seq ?s1 + of_nat j) js"
    "sorted_wrt (<) js" "\<forall>j\<in>set js. j < 2 * getNext_calls ops"
    by blast
  let ?js = "map (\<lambda>j. d + j) js"
  have later: "map sequence_number (fst (run ops ?s1))
       = map (\<lambda>j. next_expected_seq s + of_nat j) ?js"
    using js(1) d(2) by (simp add: comp_def ac_simps)
  have sorted: "sorted_wrt (<) ?js"
    using js(2) by (simp add: sorted_wrt_map)
  have bound: "\<forall>j\<in>set ?js. j < 2 * getNext_calls (opn # ops)"
    using js(3) d(1) by (auto simp add: getNext_calls_Cons [of opn ops])
  have from_d: "\<forall>j\<in>set ?js. d \<le> j" by auto
  show ?case
  proof (cases "fst (apply_op opn s)")
    case None
    then have "fst (run (opn # ops) s) = fst (run ops ?s1)"
      by (simp add: run_Cons del: run.simps)
    with later sorted bound show ?thesis by metis
  next
    case (Some p)
    with d(3) obtain e where e: "e < d" "sequence_number p = next_expected_seq s + of_nat e"
      by blast
    from Some have "fst (run (opn # ops) s) = p # fst (run ops ?s1)"
      by (simp add: run_Cons del: run.simps)
    with later e(2)
    have "map sequence_number (fst (run (opn # ops) s))
       = map (\<lambda>j. next_expected_seq s + of_nat j) (e # ?js)"
      by simp
    moreover from sorted e(1) from_d have "sorted_wrt (<) (e # ?js)" by auto
    moreover from bound e(1) d(1) have "\<forall>j\<in>set (e # ?js). j < 2 * getNext_calls (opn # ops)"
      by (auto simp add: getNext_calls_Cons [of opn ops])
    ultimately show ?thesis by metis
  qed
qed

lemma run_append:
  "run (xs @ ys) s = (fst (run xs s) @ fst (run ys (snd (run xs s))), snd (run ys (snd (run xs s))))"
  by (induction xs arbitrary: s) (simp_all add: case_prod_unfold Let_def split: option.splits)

lemma run_gaps:
  assumes "running s" "buffer s = [0 \<mapsto> p]" "0 < unat (next_expected_seq s)"
    "unat (next_expected_seq s) + n < 2 ^ 64"
  shows "run (replicate n GetNext) s
     = ([], s\<lparr>total_gaps := total_gaps s + of_nat n,
              next_expected_seq := next_expected_seq s + of_nat n\<rparr>)"
  using assms
proof (induction n arbitrary: s)
  case 0
  then show ?case by simp
next
  case (Suc n)
  let ?a = "next_expected_seq s"
  let ?s1 = "s\<lparr>total_gaps := total_gaps s + 1, next_expected_seq := ?a + 1\<rparr>"
  from Suc.prems(4) have succ: "unat (?a + 1) = unat ?a + 1"
    using unat_plus_of_nat64 [of ?a 1] by simp
  from Suc.prems(3) have "?a \<noteq> 0" by (auto simp add: unat_eq_0)
  moreover from succ have "?a + 1 \<noteq> 0" by (auto simp add: unat_eq_0 simp flip: unat_eq_0)
  ultimately have none: "buffer s ?a = None" "buffer s (?a + 1) = None"
    using Suc.prems(2) by simp_all
  from Suc.prems(1) none have step: "getNext s = (None, ?s1)"
    by (intro getNext_gap_only) simp_all
  have "run (replicate n GetNext) ?s1
     = ([], ?s1\<lparr>total_gaps := total_gaps ?s1 + of_nat n,
              next_expected_seq := next_expected_seq ?s1 + of_nat n\<rparr>)"
    using Suc.prems succ by (intro Suc.IH) simp_all
  with step show ?case by (simp add: ac_simps)
qed

text \<open>
  Claim C5, as amended. Over any run of \<open>insert_pkt\<close>, \<open>getNext\<close> and \<open>stop\<close>
  calls on a buffer from its construction that has at most \<open>2 ^ 63\<close> calls of
  \<open>getNext\<close>, the sequence numbers of the packets that \<open>getNext\<close> returns are
  pairwise distinct.
\<close>

theorem released_once:
  assumes "2 * getNext_calls ops \<le> 2 ^ 64"
  shows "distinct (map sequence_number (fst (run ops (ReorderingBuffer start))))"
proof -
  from run_window [OF keyed_initial, of ops start]
  obtain js where js: "map sequence_number (fst (run ops (ReorderingBuffer start)))
       = map (\<lambda>j. next_expected_seq (ReorderingBuffer start) + of_nat j) js"
    "sorted_wrt (<) js" "\<forall>j\<in>set js. j < 2 * getNext_calls ops"
    by blast
  from js(2) have "distinct js" by (simp add: strict_sorted_iff)
  moreover have "inj_on (\<lambda>j. next_expected_seq (ReorderingBuffer start) + of_nat j) (set js)"
  proof (rule inj_onI)
    fix j k assume "j \<in> set js" "k \<in> set js"
      and eq: "next_expected_seq (ReorderingBuffer start) + of_nat j
               = next_expected_seq (ReorderingBuffer start) + (of_nat k :: 64 word)"
    with js(3) assms have "j < 2 ^ 64" "k < 2 ^ 64" by fastforce+
    moreover from eq have "(of_nat j :: 64 word) = of_nat k" by simp
    ultimately show "j = k" by (rule of_nat64_inj)
  qed
  ultimately show ?thesis unfolding js(1) by (simp add: distinct_map)
qed


theorem released_once_witness:
  "2 * getNext_calls [Insert (simPacket 2 BULK 3), Insert (simPacket 0 BULK 3), GetNext,
       Insert (simPacket 0 CONTROL 3), GetNext, GetNext, Stop, GetNext] \<le> 2 ^ 64
   \<and> distinct (map sequence_number (fst (run
       [Insert (simPacket 2 BULK 3), Insert (simPacket 0 BULK 3), GetNext,
        Insert (simPacket 0 CONTROL 3), GetNext, GetNext, Stop, GetNext] (ReorderingBuffer 0))))
   \<and> map sequence_number (fst (run
       [Insert (simPacket 2 BULK 3), Insert (simPacket 0 BULK 3), GetNext,
        Insert (simPacket 0 CONTROL 3), GetNext, GetNext, Stop, GetNext] (ReorderingBuffer 0)))
       = [0, 2]"
proof -
  let ?ops = "[Insert (simPacket 2 BULK 3), Insert (simPacket 0 BULK 3), GetNext,
       Insert (simPacket 0 CONTROL 3), GetNext, GetNext, Stop, GetNext]"
  have few: "2 * getNext_calls ?ops \<le> 2 ^ 64"
    by (simp add: getNext_calls_def)
  have evaluated: "map sequence_number (fst (run ?ops (ReorderingBuffer 0))) = [0, 2]"
    by (simp add: getNext_def insert_pkt_def stop_def ReorderingBuffer_def simPacket_def)
  from few released_once [OF few, of 0] evaluated show ?thesis by (intro conjI)
qed

text \<open>
  Without the bound the claim fails, since the next expected sequence number is a
  64-bit value that wraps around: the packet 0 is inserted and released, a second
  packet 0 arrives late and stays pending, and \<open>2 ^ 64 - 1\<close> calls of \<open>getNext\<close>
  that each time out bring the next expected sequence number back to 0, where the
  last of them releases sequence number 0 a second time.
\<close>

theorem released_twice_counterexample:
  "\<not> distinct (map sequence_number (fst (run
       ([Insert (simPacket 0 BULK 3), GetNext, Insert (simPacket 0 BULK 3)]
          @ replicate 18446744073709551615 GetNext)
       (ReorderingBuffer 0))))"
proof -
  let ?p = "simPacket 0 BULK 3"
  let ?s3 = "\<lparr>buffer = [0 \<mapsto> ?p], next_expected_seq = 1, running = True,
      total_received = 2, total_released = 1, total_gaps = 0\<rparr>"
  let ?s4 = "?s3\<lparr>total_gaps := total_gaps ?s3 + of_nat 18446744073709551614,
      next_expected_seq := next_expected_seq ?s3 + of_nat 18446744073709551614\<rparr>"
  have first: "run [Insert ?p, GetNext, Insert ?p] (ReorderingBuffer 0) = ([?p], ?s3)"
    by (simp add: getNext_def insert_pkt_def ReorderingBuffer_def simPacket_def)
  have gaps: "run (replicate 18446744073709551614 GetNext) ?s3 = ([], ?s4)"
    by (rule run_gaps) simp_all
  have last: "run [GetNext] ?s4 = ([?p], snd (getNext ?s4))"
    by (simp add: getNext_def)
  have split: "replicate 18446744073709551615 GetNext
     = replicate 18446744073709551614 GetNext @ [GetNext]"
  proof -
    have "replicate (Suc 18446744073709551614) GetNext
       = replicate 18446744073709551614 GetNext @ [GetNext]"
      by (simp only: replicate_Suc replicate_append_same)
    then show ?thesis by simp
  qed
  let ?A = "[Insert ?p, GetNext, Insert ?p]"
  let ?B = "replicate 18446744073709551614 GetNext"
  have "fst (run (?A @ ?B @ [GetNext]) (ReorderingBuffer 0))
      = fst (run ?A (ReorderingBuffer 0))
          @ fst (run (?B @ [GetNext]) (snd (run ?A (ReorderingBuffer 0))))"
    by (simp only: run_append fst_conv)
  also have "\<dots> = [?p] @ fst (run (?B @ [GetNext]) ?s3)"
    by (simp only: first fst_conv snd_conv)
  also have "fst (run (?B @ [GetNext]) ?s3)
      = fst (run ?B ?s3) @ fst (run [GetNext] (snd (run ?B ?s3)))"
    by (simp only: run_append fst_conv)
  also have "\<dots> = [] @ fst (run [GetNext] ?s4)"
    by (simp only: gaps fst_conv snd_conv)
  also have "\<dots> = [?p]"
    by (simp only: last fst_conv append_Nil)
  finally have "fst (run (?A @ replicate 18446744073709551615 GetNext) (ReorderingBuffer 0))
      = [?p, ?p]"
    by (simp only: split append_Cons append_Nil)
  then show ?thesis by simp
qed


end
